theory Spec2Isabelle
  imports Main
begin

section \<open>Chronicle AI Editor: generation lifecycle and streaming render queue\<close>

text \<open>
  A shallow embedding of \<^verbatim>\<open>src/components/Editor.tsx\<close>. The component is single-threaded:
  every handler, effect and callback runs to completion, so each of them is a function
  from the component's state to its new state, and an execution is a list of events.

  Text is a list of code units of an arbitrary type \<open>'u\<close>: a JavaScript string is a
  sequence of UTF-16 code units, \<^verbatim>\<open>length\<close> counts them, and \<^verbatim>\<open>slice(0, n)\<close> and
  \<^verbatim>\<open>slice(n)\<close> with \<open>0 \<le> n\<close> are \<^const>\<open>take\<close> and \<^const>\<open>drop\<close>.
\<close>

subsection \<open>The generation machine\<close>

text \<open>Modelled from the spec: the component takes its machine from
  \<^verbatim>\<open>src/machines/editorMachine.ts\<close>, which is not among the sources. The states and the
  session data (status, request, error message) are those of the spec's sections 3 and
  4.2.\<close>

datatype status = Idle | Generating | Success | Error | Cancelled

record 'u request =
  baseText :: "'u list"
  instruction :: "'u list option"

record 'u session =
  status :: status
  request :: "'u request option"
  errorMessage :: "string option"

text \<open>The events the component sends: \<^verbatim>\<open>CONTINUE_WRITING\<close> (the spec's START) with
  \<^verbatim>\<open>currentText\<close> and \<^verbatim>\<open>instruction\<close>, \<^verbatim>\<open>GENERATION_COMPLETE\<close>, \<^verbatim>\<open>ERROR\<close> with its
  message, and \<^verbatim>\<open>CANCEL\<close>.\<close>

datatype 'u machine_event =
    CONTINUE_WRITING "'u list" "'u list option"
  | GENERATION_COMPLETE
  | ERROR string
  | CANCEL

text \<open>Modelled from the spec: the transition function of \<^verbatim>\<open>editorMachine\<close>, which is not
  among the sources. The transition table is the one of the spec's section 4.2. START
  leads to \<open>generating\<close> from every state but \<open>generating\<close>, storing the request and
  clearing the previous session's data; in \<open>generating\<close> it is rejected. COMPLETE, FAIL
  and CANCEL leave \<open>generating\<close> for \<open>success\<close>, \<open>error\<close> (storing the message) and
  \<open>cancelled\<close>. An event in a state that does not define it is ignored.\<close>

fun transition :: "'u session \<Rightarrow> 'u machine_event \<Rightarrow> 'u session" where
  "transition m (CONTINUE_WRITING t i) =
     (if status m = Generating then m
      else \<lparr>status = Generating,
            request = Some \<lparr>baseText = t, instruction = i\<rparr>,
            errorMessage = None\<rparr>)"
| "transition m GENERATION_COMPLETE =
     (if status m = Generating then m\<lparr>status := Success\<rparr> else m)"
| "transition m (ERROR msg) =
     (if status m = Generating then m\<lparr>status := Error, errorMessage := Some msg\<rparr> else m)"
| "transition m CANCEL =
     (if status m = Generating then m\<lparr>status := Cancelled\<rparr> else m)"

text \<open>\<^verbatim>\<open>state.context.instruction\<close>: the instruction of the stored request.\<close>

definition context_instruction :: "'u session \<Rightarrow> 'u list option" where
  "context_instruction m = (case request m of None \<Rightarrow> None | Some r \<Rightarrow> instruction r)"

subsection \<open>The component's state\<close>

text \<open>The document sink is ProseMirror's \<^verbatim>\<open>EditorView\<close>, an external library. Of its state
  the model keeps the document's text content and the cursor as an index into it:
  \<^verbatim>\<open>tr.insertText(chunk)\<close> puts the chunk at the cursor and moves the cursor behind it,
  \<^verbatim>\<open>tr.delete(0, doc.content.size)\<close> empties the document, and the selection near the end
  position is the cursor at the end of the text.\<close>

record 'u view =
  docText :: "'u list"
  cursor :: nat

text \<open>
  \<^item> \<open>machine\<close>, \<open>isExpanded\<close>, \<open>promptText\<close>: the React state of the component;
  \<^item> \<open>viewRef\<close>, \<open>textQueueRef\<close>, \<open>isProcessingQueue\<close>: its refs (\<open>viewRef\<close> is \<open>None\<close>
    for \<^verbatim>\<open>null\<close>; a mounted view carries \<^verbatim>\<open>triggerTyping\<close>, which the second effect
    installs right after the first one creates the view);
  \<^item> \<open>frames\<close>: the number of \<^verbatim>\<open>requestAnimationFrame(processQueue)\<close> callbacks that are
    scheduled and have not run yet;
  \<^item> \<open>closures\<close>: one entry for every run of the generation effect, oldest first, holding
    that run's local variable \<^verbatim>\<open>active\<close>;
  \<^item> \<open>insertCalls\<close>: the chunks given to \<^verbatim>\<open>insertText\<close> by \<^verbatim>\<open>processQueue\<close>, in call order;
  \<^item> \<open>producerCalls\<close>: the calls of \<^verbatim>\<open>streamContinuation\<close>, in call order, each with the
    index of the effect run that made it, the base text and the instruction.
  The last two are traces of what the component did to its collaborators. The
  component's functions only extend them; \<open>producerCalls\<close> is read to tell which
  producers exist, and so which producer events can happen.
\<close>

record 'u editor =
  machine :: "'u session"
  isExpanded :: bool
  promptText :: "'u list"
  viewRef :: "'u view option"
  textQueueRef :: "'u list"
  isProcessingQueue :: bool
  frames :: nat
  closures :: "bool list"
  insertCalls :: "'u list list"
  producerCalls :: "(nat \<times> 'u list \<times> 'u list option) list"

subsection \<open>The render queue (second effect)\<close>

text \<open>The staircase of \<^verbatim>\<open>processQueue\<close>, lines 115 to 123.\<close>

definition chunkSize :: "nat \<Rightarrow> nat" where
  "chunkSize queueLength =
     (if queueLength > 200 then 50
      else if queueLength > 100 then 25
      else if queueLength > 50 then 10
      else if queueLength > 10 then 4
      else 2)"

definition insertText :: "'u list \<Rightarrow> 'u view \<Rightarrow> 'u view" where
  "insertText chunk v =
     v\<lparr>docText := take (cursor v) (docText v) @ chunk @ drop (cursor v) (docText v),
       cursor := min (cursor v) (length (docText v)) + length chunk\<rparr>"

text \<open>\<^verbatim>\<open>processQueue\<close>: return when there is no view; with text queued, cut a chunk off
  the front, insert it and schedule the next frame; with nothing queued, clear the
  processing flag and schedule nothing. Scrolling the insertion point into view changes
  no text and is left out.\<close>

definition processQueue :: "'u editor \<Rightarrow> 'u editor" where
  "processQueue s =
     (case viewRef s of
        None \<Rightarrow> s
      | Some v \<Rightarrow>
          if length (textQueueRef s) > 0 then
            let queueLength = length (textQueueRef s);
                chunk = take (chunkSize queueLength) (textQueueRef s)
            in s\<lparr>textQueueRef := drop (chunkSize queueLength) (textQueueRef s),
                 viewRef := Some (insertText chunk v),
                 insertCalls := insertCalls s @ [chunk],
                 frames := frames s + 1\<rparr>
          else s\<lparr>isProcessingQueue := False\<rparr>)"

definition triggerProcessing :: "'u editor \<Rightarrow> 'u editor" where
  "triggerProcessing s =
     (if \<not> isProcessingQueue s then processQueue (s\<lparr>isProcessingQueue := True\<rparr>) else s)"

text \<open>The browser runs one scheduled frame callback.\<close>

definition frame :: "'u editor \<Rightarrow> 'u editor" where
  "frame s = (if frames s = 0 then s else processQueue (s\<lparr>frames := frames s - 1\<rparr>))"

subsection \<open>The generation effect (third effect)\<close>

definition is_active :: "'u editor \<Rightarrow> nat \<Rightarrow> bool" where
  "is_active s i = (i < length (closures s) \<and> closures s ! i)"

text \<open>The effect's cleanup, \<^verbatim>\<open>active = false\<close>, on the variable of the latest run.\<close>

definition cleanup :: "'u editor \<Rightarrow> 'u editor" where
  "cleanup s = s\<lparr>closures := (closures s)[length (closures s) - 1 := False]\<rparr>"

text \<open>A run of the effect: a fresh \<^verbatim>\<open>active = true\<close>, then the synchronous part of
  \<^verbatim>\<open>runGeneration\<close> up to the call of \<^verbatim>\<open>streamContinuation\<close>.\<close>

definition runGeneration :: "'u editor \<Rightarrow> 'u editor" where
  "runGeneration s =
     (let i = length (closures s);
          s0 = s\<lparr>closures := closures s @ [True]\<rparr>
      in if status (machine s) = Generating then
           (case viewRef s of
              None \<Rightarrow> s0
            | Some v \<Rightarrow>
                let currentText = docText v;
                    instr = context_instruction (machine s);
                    s1 = (if \<not> isExpanded s0 then s0\<lparr>isExpanded := True\<rparr> else s0)
                in s1\<lparr>viewRef := Some (v\<lparr>cursor := length (docText v)\<rparr>),
                      producerCalls := producerCalls s1 @ [(i, currentText, instr)]\<rparr>)
         else s0)"

text \<open>\<^verbatim>\<open>send\<close>: the machine takes the event; React renders again, and the effect, whose
  dependencies are \<^verbatim>\<open>state.value\<close> and \<^verbatim>\<open>state.context.instruction\<close> (\<^verbatim>\<open>send\<close> is stable),
  is cleaned up and run again when one of them changed. The render and its effects are
  taken as one step with the \<^verbatim>\<open>send\<close> that caused them.\<close>

definition send :: "'u machine_event \<Rightarrow> 'u editor \<Rightarrow> 'u editor" where
  "send ev s =
     (let m' = transition (machine s) ev;
          s' = s\<lparr>machine := m'\<rparr>
      in if status m' \<noteq> status (machine s)
            \<or> context_instruction m' \<noteq> context_instruction (machine s)
         then runGeneration (cleanup s')
         else s')"

text \<open>The callback given to \<^verbatim>\<open>streamContinuation\<close> by effect run \<open>i\<close>.\<close>

definition onChunk :: "nat \<Rightarrow> 'u list \<Rightarrow> 'u editor \<Rightarrow> 'u editor" where
  "onChunk i chunk s =
     (if \<not> is_active s i then s
      else let s1 = s\<lparr>textQueueRef := textQueueRef s @ chunk\<rparr>
           in (case viewRef s1 of None \<Rightarrow> s1 | Some v \<Rightarrow> triggerProcessing s1))"

text \<open>The promise of effect run \<open>i\<close> resolves.\<close>

definition resolve :: "nat \<Rightarrow> 'u editor \<Rightarrow> 'u editor" where
  "resolve i s = (if is_active s i then send GENERATION_COMPLETE s else s)"

text \<open>The promise of effect run \<open>i\<close> rejects with \<^verbatim>\<open>err\<close>; the argument is \<^verbatim>\<open>err.message\<close>,
  \<open>None\<close> when it is undefined. An empty string is falsy for \<^verbatim>\<open>||\<close>.\<close>

definition error_message :: "string option \<Rightarrow> string" where
  "error_message m =
     (case m of
        None \<Rightarrow> ''Failed to generate text''
      | Some msg \<Rightarrow> if msg = [] then ''Failed to generate text'' else msg)"

definition reject :: "nat \<Rightarrow> string option \<Rightarrow> 'u editor \<Rightarrow> 'u editor" where
  "reject i m s = (if is_active s i then send (ERROR (error_message m)) s else s)"

subsection \<open>The handlers\<close>

definition clearEditor :: "'u editor \<Rightarrow> 'u editor" where
  "clearEditor s =
     (case viewRef s of
        None \<Rightarrow> s
      | Some v \<Rightarrow> s\<lparr>viewRef := Some (v\<lparr>docText := [], cursor := 0\<rparr>), textQueueRef := []\<rparr>)"

text \<open>\<^verbatim>\<open>promptText || undefined\<close>: an empty prompt is no instruction.\<close>

definition prompt_instruction :: "'u editor \<Rightarrow> 'u list option" where
  "prompt_instruction s = (if promptText s = [] then None else Some (promptText s))"

text \<open>\<^verbatim>\<open>handleStartGeneration\<close>. The test of \<^verbatim>\<open>isExpanded\<close> in line 195 reads the value of
  the render the handler belongs to, which \<^verbatim>\<open>setIsExpanded(true)\<close> does not change.\<close>

definition handleStartGeneration :: "'u editor \<Rightarrow> 'u editor" where
  "handleStartGeneration s =
     (case viewRef s of
        None \<Rightarrow> s
      | Some v \<Rightarrow>
          let s1 = (if \<not> isExpanded s then (clearEditor s)\<lparr>isExpanded := True\<rparr> else s);
              currentEditorText = (if isExpanded s then docText v else [])
          in send (CONTINUE_WRITING currentEditorText (prompt_instruction s)) s1)"

definition handleNewChat :: "'u editor \<Rightarrow> 'u editor" where
  "handleNewChat s =
     (let s1 = (if status (machine s) = Generating then send CANCEL s else s);
          s2 = clearEditor s1
      in s2\<lparr>promptText := [], isExpanded := False, textQueueRef := []\<rparr>)"

text \<open>The action button, line 346: CANCEL while generating, a start otherwise.\<close>

definition clickAction :: "'u editor \<Rightarrow> 'u editor" where
  "clickAction s =
     (if status (machine s) = Generating then send CANCEL s else handleStartGeneration s)"

subsection \<open>Executions\<close>

text \<open>What can happen to a mounted component: the producer started by effect run \<open>i\<close>
  delivers a fragment, resolves or rejects; a scheduled frame runs; the user clicks the
  action button, presses Enter in the prompt, clicks New Chat, or edits the prompt.
  Enter calls \<^verbatim>\<open>handleStartGeneration\<close> whatever the status is; the key handler's test
  that the prompt is not blank is left out, which only adds executions. The producer
  events of a run that never called \<^verbatim>\<open>streamContinuation\<close> do nothing.\<close>

datatype 'u event =
    Fragment nat "'u list"
  | Resolve nat
  | Reject nat "string option"
  | Frame
  | ClickAction
  | PressEnter
  | NewChat
  | SetPrompt "'u list"

definition has_producer :: "'u editor \<Rightarrow> nat \<Rightarrow> bool" where
  "has_producer s i = (i \<in> set (map fst (producerCalls s)))"

fun step :: "'u event \<Rightarrow> 'u editor \<Rightarrow> 'u editor" where
  "step (Fragment i chunk) s = (if has_producer s i then onChunk i chunk s else s)"
| "step (Resolve i) s = (if has_producer s i then resolve i s else s)"
| "step (Reject i m) s = (if has_producer s i then reject i m s else s)"
| "step Frame s = frame s"
| "step ClickAction s = clickAction s"
| "step PressEnter s = handleStartGeneration s"
| "step NewChat s = handleNewChat s"
| "step (SetPrompt t) s = s\<lparr>promptText := t\<rparr>"

primrec run :: "'u event list \<Rightarrow> 'u editor \<Rightarrow> 'u editor" where
  "run [] s = s"
| "run (e # es) s = run es (step e s)"

text \<open>The component after mounting: an empty document, an idle machine, and the first
  run of the generation effect, which found the machine idle and started nothing.\<close>

definition mounted :: "'u editor" where
  "mounted =
     \<lparr>machine = \<lparr>status = Idle, request = None, errorMessage = None\<rparr>,
      isExpanded = False,
      promptText = [],
      viewRef = Some \<lparr>docText = [], cursor = 0\<rparr>,
      textQueueRef = [],
      isProcessingQueue = False,
      frames = 0,
      closures = [True],
      insertCalls = [],
      producerCalls = []\<rparr>"

text \<open>The frame loop left alone: frames run until none is scheduled.\<close>

function drain :: "'u editor \<Rightarrow> 'u editor" where
  "drain s = (if frames s = 0 then s else drain (frame s))"
  by pat_completeness auto
termination
proof (relation "measure (\<lambda>s. length (textQueueRef s) + frames s)")
  show "wf (measure (\<lambda>s::'u editor. length (textQueueRef s) + frames s))"
    by simp
next
  fix s :: "'u editor"
  assume "frames s \<noteq> 0"
  then show "(frame s, s) \<in> measure (\<lambda>s. length (textQueueRef s) + frames s)"
    by (auto simp: frame_def processQueue_def chunkSize_def Let_def split: option.splits)
qed

declare drain.simps [simp del]

subsection \<open>Invariants and observations\<close>

text \<open>The drain loop is alive exactly when the processing flag is set: then one frame is
  scheduled, otherwise none, and text is only ever queued while the flag is set.\<close>

definition loop_inv :: "'u editor \<Rightarrow> bool" where
  "loop_inv s =
     (viewRef s \<noteq> None
      \<and> frames s = (if isProcessingQueue s then 1 else 0)
      \<and> (textQueueRef s \<noteq> [] \<longrightarrow> isProcessingQueue s))"

text \<open>Only the latest run of the generation effect can be active, and every producer
  was started by a run that exists.\<close>

definition closure_inv :: "'u editor \<Rightarrow> bool" where
  "closure_inv s =
     (closures s \<noteq> []
      \<and> (\<forall>i. Suc i < length (closures s) \<longrightarrow> \<not> closures s ! i)
      \<and> (\<forall>p \<in> set (producerCalls s). fst p < length (closures s)))"

text \<open>An effect run whose cleanup has happened.\<close>

definition stale :: "'u editor \<Rightarrow> nat \<Rightarrow> bool" where
  "stale s i = (i < length (closures s) \<and> \<not> closures s ! i)"

text \<open>Whether the event changes a dependency of the generation effect.\<close>

definition rerun :: "'u session \<Rightarrow> 'u machine_event \<Rightarrow> bool" where
  "rerun m ev =
     (status (transition m ev) \<noteq> status m
      \<or> context_instruction (transition m ev) \<noteq> context_instruction m)"

text \<open>The text a producer event delivers.\<close>

fun fragment_text :: "'u event \<Rightarrow> 'u list" where
  "fragment_text (Fragment i chunk) = chunk"
| "fragment_text e = []"

text \<open>Everything inserted so far followed by everything still queued.\<close>

definition emitted :: "'u editor \<Rightarrow> 'u list" where
  "emitted s = concat (insertCalls s) @ textQueueRef s"

section \<open>Properties\<close>

subsection \<open>What sending an event leaves alone\<close>

lemma send_queue [simp]:
  "textQueueRef (send ev s) = textQueueRef s"
  "isProcessingQueue (send ev s) = isProcessingQueue s"
  "frames (send ev s) = frames s"
  "insertCalls (send ev s) = insertCalls s"
  "promptText (send ev s) = promptText s"
  by (simp_all add: send_def runGeneration_def cleanup_def Let_def split: option.splits)

lemma send_view:
  "map_option docText (viewRef (send ev s)) = map_option docText (viewRef s)"
  by (simp add: send_def runGeneration_def cleanup_def Let_def split: option.splits)

lemma send_view_None [simp]: "viewRef (send ev s) = None \<longleftrightarrow> viewRef s = None"
  using send_view [of ev s] by (metis option.map_disc_iff)

lemma loop_inv_send: "loop_inv s \<Longrightarrow> loop_inv (send ev s)"
  by (simp add: loop_inv_def)

lemma loop_inv_frame: "loop_inv s \<Longrightarrow> loop_inv (frame s)"
  by (auto simp: loop_inv_def frame_def processQueue_def Let_def chunkSize_def split: option.splits)

lemma loop_inv_onChunk: "loop_inv s \<Longrightarrow> loop_inv (onChunk i c s)"
  by (auto simp: loop_inv_def onChunk_def triggerProcessing_def processQueue_def Let_def
      split: option.splits)

lemma loop_inv_clearEditor: "loop_inv s \<Longrightarrow> loop_inv (clearEditor s)"
  by (auto simp: loop_inv_def clearEditor_def split: option.splits)

lemma loop_inv_handleStartGeneration: "loop_inv s \<Longrightarrow> loop_inv (handleStartGeneration s)"
proof -
  assume inv: "loop_inv s"
  then obtain v where v: "viewRef s = Some v" by (auto simp: loop_inv_def)
  have "loop_inv ((clearEditor s)\<lparr>isExpanded := True\<rparr>)"
    using loop_inv_clearEditor [OF inv] by (simp add: loop_inv_def)
  then show ?thesis
    using inv v by (simp add: handleStartGeneration_def Let_def loop_inv_send)
qed

lemma loop_inv_handleNewChat: "loop_inv s \<Longrightarrow> loop_inv (handleNewChat s)"
proof -
  assume inv: "loop_inv s"
  define s1 where "s1 = (if status (machine s) = Generating then send CANCEL s else s)"
  have "loop_inv s1" using inv by (simp add: s1_def loop_inv_send)
  then have "loop_inv (clearEditor s1)" by (rule loop_inv_clearEditor)
  then have "loop_inv ((clearEditor s1)\<lparr>promptText := [], isExpanded := False, textQueueRef := []\<rparr>)"
    by (simp add: loop_inv_def)
  then show ?thesis by (simp add: handleNewChat_def s1_def Let_def)
qed

lemma loop_inv_step: "loop_inv s \<Longrightarrow> loop_inv (step e s)"
  by (cases e)
    (simp_all add: loop_inv_onChunk loop_inv_frame loop_inv_send loop_inv_handleStartGeneration
      loop_inv_handleNewChat resolve_def reject_def clickAction_def, simp add: loop_inv_def)

lemma loop_inv_run: "loop_inv s \<Longrightarrow> loop_inv (run es s)"
  by (induction es arbitrary: s) (simp_all add: loop_inv_step)

lemma loop_inv_mounted: "loop_inv mounted"
  by (simp add: loop_inv_def mounted_def)

lemma closure_inv_send: "closure_inv s \<Longrightarrow> closure_inv (send ev s)"
  by (auto simp: closure_inv_def send_def runGeneration_def cleanup_def Let_def nth_append
      nth_list_update less_Suc_eq split: option.splits)

subsection \<open>Effect runs\<close>

lemma closure_inv_fields:
  "closures t = closures s \<Longrightarrow> producerCalls t = producerCalls s \<Longrightarrow> closure_inv s \<Longrightarrow> closure_inv t"
  by (simp add: closure_inv_def)

lemma frame_closures [simp]:
  "closures (frame s) = closures s" "producerCalls (frame s) = producerCalls s"
  "machine (frame s) = machine s"
  by (simp_all add: frame_def processQueue_def Let_def split: option.splits)

lemma onChunk_closures [simp]:
  "closures (onChunk i c s) = closures s" "producerCalls (onChunk i c s) = producerCalls s"
  "machine (onChunk i c s) = machine s"
  by (simp_all add: onChunk_def triggerProcessing_def processQueue_def Let_def split: option.splits)

lemma clearEditor_closures [simp]:
  "closures (clearEditor s) = closures s" "producerCalls (clearEditor s) = producerCalls s"
  "machine (clearEditor s) = machine s"
  by (simp_all add: clearEditor_def split: option.splits)

lemma closure_inv_handleStartGeneration: "closure_inv s \<Longrightarrow> closure_inv (handleStartGeneration s)"
proof -
  assume inv: "closure_inv s"
  have "closure_inv ((clearEditor s)\<lparr>isExpanded := True\<rparr>)"
    using inv by (simp add: closure_inv_def)
  then show ?thesis
    using inv by (simp add: handleStartGeneration_def Let_def closure_inv_send split: option.splits)
qed

lemma closure_inv_handleNewChat: "closure_inv s \<Longrightarrow> closure_inv (handleNewChat s)"
proof -
  assume inv: "closure_inv s"
  define s1 where "s1 = (if status (machine s) = Generating then send CANCEL s else s)"
  have "closure_inv s1" using inv by (simp add: s1_def closure_inv_send)
  then have "closure_inv ((clearEditor s1)\<lparr>promptText := [], isExpanded := False, textQueueRef := []\<rparr>)"
    by (simp add: closure_inv_def)
  then show ?thesis by (simp add: handleNewChat_def s1_def Let_def)
qed

lemma closure_inv_step: "closure_inv s \<Longrightarrow> closure_inv (step e s)"
proof (cases e)
  case (Fragment i c)
  assume "closure_inv s"
  then show ?thesis using Fragment by (simp add: closure_inv_def)
next
  case Frame
  assume "closure_inv s"
  then show ?thesis using Frame by (simp add: closure_inv_def)
next
  case (SetPrompt t)
  assume "closure_inv s"
  then show ?thesis using SetPrompt by (simp add: closure_inv_def)
qed (simp_all add: closure_inv_send closure_inv_handleStartGeneration closure_inv_handleNewChat
      resolve_def reject_def clickAction_def)

lemma closure_inv_run: "closure_inv s \<Longrightarrow> closure_inv (run es s)"
  by (induction es arbitrary: s) (simp_all add: closure_inv_step)

lemma closure_inv_mounted: "closure_inv mounted"
  by (simp add: closure_inv_def mounted_def)

lemma send_closures:
  "closures (send ev s) =
     (if rerun (machine s) ev then (closures s)[length (closures s) - 1 := False] @ [True]
      else closures s)"
  by (simp add: send_def rerun_def runGeneration_def cleanup_def Let_def split: option.splits)

lemma stale_send: "stale s i \<Longrightarrow> stale (send ev s) i"
  by (auto simp: stale_def send_closures nth_append nth_list_update split: if_splits)

lemma stale_fields: "closures t = closures s \<Longrightarrow> stale s i \<Longrightarrow> stale t i"
  by (simp add: stale_def)

lemma stale_step: "stale s i \<Longrightarrow> stale (step e s) i"
proof (cases e)
  case PressEnter
  assume st: "stale s i"
  have "stale ((clearEditor s)\<lparr>isExpanded := True\<rparr>) i" using st by (simp add: stale_def)
  then show ?thesis using st PressEnter
    by (simp add: handleStartGeneration_def Let_def stale_send split: option.splits)
next
  case ClickAction
  assume st: "stale s i"
  have "stale ((clearEditor s)\<lparr>isExpanded := True\<rparr>) i" using st by (simp add: stale_def)
  then show ?thesis using st ClickAction
    by (simp add: clickAction_def handleStartGeneration_def Let_def stale_send split: option.splits)
next
  case NewChat
  assume st: "stale s i"
  define s1 where "s1 = (if status (machine s) = Generating then send CANCEL s else s)"
  have "stale s1 i" using st by (simp add: s1_def stale_send)
  then have "stale ((clearEditor s1)\<lparr>promptText := [], isExpanded := False, textQueueRef := []\<rparr>) i"
    by (simp add: stale_def)
  then show ?thesis using NewChat by (simp add: handleNewChat_def s1_def Let_def)
qed (auto simp: stale_send resolve_def reject_def intro: stale_fields)

lemma stale_run: "stale s i \<Longrightarrow> stale (run es s) i"
  by (induction es arbitrary: s) (simp_all add: stale_step)

lemma stale_onChunk: "stale s i \<Longrightarrow> onChunk i c s = s"
  by (simp add: stale_def onChunk_def is_active_def)

text \<open>A send that changes the status leaves every earlier effect run stale.\<close>

lemma send_stales:
  assumes "closure_inv s" and "status (transition (machine s) ev) \<noteq> status (machine s)"
    and "i < length (closures s)"
  shows "stale (send ev s) i"
proof -
  have "rerun (machine s) ev" using assms(2) by (simp add: rerun_def)
  moreover have "Suc i < length (closures s) \<or> i = length (closures s) - 1"
    using assms(3) by arith
  ultimately show ?thesis
    using assms(1,3)
    by (auto simp: stale_def closure_inv_def send_closures nth_append nth_list_update)
qed

lemma send_producerCalls:
  "producerCalls (send ev s) =
     (if rerun (machine s) ev \<and> status (transition (machine s) ev) = Generating
         \<and> viewRef s \<noteq> None
      then producerCalls s @ [(length (closures s), docText (the (viewRef s)),
             context_instruction (transition (machine s) ev))]
      else producerCalls s)"
  by (auto simp: send_def rerun_def runGeneration_def cleanup_def Let_def split: option.splits)

lemma send_machine [simp]: "machine (send ev s) = transition (machine s) ev"
  by (simp add: send_def runGeneration_def cleanup_def Let_def split: option.splits)

subsection \<open>Conservation of text and the drain loop\<close>

lemma processQueue_emitted: "emitted (processQueue s) = emitted s"
  by (simp add: emitted_def processQueue_def Let_def split: option.splits)

lemma processQueue_upd_emitted:
  "emitted (processQueue (s\<lparr>frames := n\<rparr>)) = emitted s"
  "emitted (processQueue (s\<lparr>isProcessingQueue := b\<rparr>)) = emitted s"
  by (simp_all add: processQueue_emitted) (simp_all add: emitted_def)

lemma frame_emitted: "emitted (frame s) = emitted s"
  by (simp add: frame_def processQueue_upd_emitted)

lemma onChunk_emitted:
  "emitted (onChunk i c s) = (if is_active s i then emitted s @ c else emitted s)"
proof -
  have "emitted (triggerProcessing (s\<lparr>textQueueRef := textQueueRef s @ c\<rparr>)) = emitted s @ c"
    by (simp add: triggerProcessing_def processQueue_upd_emitted) (simp add: emitted_def)
  moreover have "emitted (s\<lparr>textQueueRef := textQueueRef s @ c\<rparr>) = emitted s @ c"
    by (simp add: emitted_def)
  ultimately show ?thesis
    by (simp add: onChunk_def Let_def split: option.splits)
qed

lemma frame_suffix:
  "\<exists>chunk. textQueueRef s = chunk @ textQueueRef (frame s)
      \<and> concat (insertCalls (frame s)) = concat (insertCalls s) @ chunk"
proof (cases "frames s \<noteq> 0 \<and> viewRef s \<noteq> None \<and> textQueueRef s \<noteq> []")
  case True
  then have "textQueueRef s =
        take (chunkSize (length (textQueueRef s))) (textQueueRef s) @ textQueueRef (frame s)
      \<and> concat (insertCalls (frame s)) =
        concat (insertCalls s) @ take (chunkSize (length (textQueueRef s))) (textQueueRef s)"
    by (auto simp: frame_def processQueue_def Let_def)
  then show ?thesis by blast
next
  case False
  then have "textQueueRef s = [] @ textQueueRef (frame s)
      \<and> concat (insertCalls (frame s)) = concat (insertCalls s) @ []"
    by (auto simp: frame_def processQueue_def Let_def split: option.splits)
  then show ?thesis by blast
qed

lemma frame_measure:
  "frames s \<noteq> 0 \<Longrightarrow>
     length (textQueueRef (frame s)) + frames (frame s) < length (textQueueRef s) + frames s"
  by (auto simp: frame_def processQueue_def chunkSize_def Let_def split: option.splits)

lemma drain_emitted: "emitted (drain s) = emitted s"
proof (induction s rule: drain.induct)
  case (1 s)
  show ?case
  proof (cases "frames s = 0")
    case True
    then show ?thesis by (simp add: drain.simps [of s])
  next
    case False
    then have "drain s = drain (frame s)" by (simp add: drain.simps [of s])
    then show ?thesis using 1 False by (simp add: frame_emitted)
  qed
qed

lemma drain_quiescent:
  "loop_inv s \<Longrightarrow>
     textQueueRef (drain s) = [] \<and> \<not> isProcessingQueue (drain s) \<and> frames (drain s) = 0"
proof (induction s rule: drain.induct)
  case (1 s)
  show ?case
  proof (cases "frames s = 0")
    case True
    then have "drain s = s" by (simp add: drain.simps [of s])
    moreover have "\<not> isProcessingQueue s" using True "1.prems" by (auto simp: loop_inv_def split: if_splits)
    moreover have "textQueueRef s = []" using \<open>\<not> isProcessingQueue s\<close> "1.prems" by (auto simp: loop_inv_def)
    ultimately show ?thesis using True by simp
  next
    case False
    then have "drain s = drain (frame s)" by (simp add: drain.simps [of s])
    then show ?thesis using "1.IH" [OF False loop_inv_frame [OF "1.prems"]] by simp
  qed
qed

lemma drain_funpow:
  "\<exists>n \<le> length (textQueueRef s) + frames s. drain s = (frame ^^ n) s"
proof (induction s rule: drain.induct)
  case (1 s)
  show ?case
  proof (cases "frames s = 0")
    case True
    then have "drain s = (frame ^^ 0) s" by (simp add: drain.simps [of s])
    then show ?thesis by blast
  next
    case False
    then obtain n where n: "n \<le> length (textQueueRef (frame s)) + frames (frame s)"
      and d: "drain (frame s) = (frame ^^ n) (frame s)"
      using "1.IH" by blast
    have "drain s = (frame ^^ Suc n) s"
      using False d by (simp add: drain.simps [of s] funpow_swap1)
    moreover have "Suc n \<le> length (textQueueRef s) + frames s"
      using n frame_measure [OF False] by arith
    ultimately show ?thesis by blast
  qed
qed

lemma drain_insertCalls:
  assumes "loop_inv s"
  shows "concat (insertCalls (drain s)) = concat (insertCalls s) @ textQueueRef s"
  using drain_emitted [of s] drain_quiescent [OF assms] by (simp add: emitted_def)

lemma run_queue_events:
  assumes "\<forall>e \<in> set es. e = Frame \<or> (\<exists>c. e = Fragment i c)"
    and "is_active s i" and "has_producer s i"
  shows "emitted (run es s) = emitted s @ concat (map fragment_text es)"
  using assms
proof (induction es arbitrary: s)
  case Nil
  then show ?case by simp
next
  case (Cons e es)
  have act: "is_active (step e s) i" and prod: "has_producer (step e s) i"
    using Cons.prems by (auto simp: is_active_def has_producer_def)
  have "emitted (step e s) = emitted s @ fragment_text e"
    using Cons.prems by (auto simp: frame_emitted onChunk_emitted)
  moreover have "emitted (run es (step e s)) = emitted (step e s) @ concat (map fragment_text es)"
    using Cons.IH [OF _ act prod] Cons.prems(1) by simp
  ultimately show ?case by simp
qed

subsection \<open>Single steps\<close>

lemma chunkSize_table:
  "(200 < L \<longrightarrow> chunkSize L = 50) \<and> (100 < L \<and> L \<le> 200 \<longrightarrow> chunkSize L = 25) \<and>
   (50 < L \<and> L \<le> 100 \<longrightarrow> chunkSize L = 10) \<and> (10 < L \<and> L \<le> 50 \<longrightarrow> chunkSize L = 4) \<and>
   (1 \<le> L \<and> L \<le> 10 \<longrightarrow> chunkSize L = 2)"
  by (simp add: chunkSize_def)

lemma processQueue_nonempty:
  assumes "viewRef s = Some v" and "textQueueRef s \<noteq> []"
  shows "processQueue s =
     s\<lparr>textQueueRef := drop (chunkSize (length (textQueueRef s))) (textQueueRef s),
       viewRef := Some (insertText (take (chunkSize (length (textQueueRef s))) (textQueueRef s)) v),
       insertCalls := insertCalls s @ [take (chunkSize (length (textQueueRef s))) (textQueueRef s)],
       frames := frames s + 1\<rparr>"
  using assms by (simp add: processQueue_def Let_def)

lemma send_view_keep:
  "status (transition (machine s) ev) \<noteq> Generating \<Longrightarrow> viewRef (send ev s) = viewRef s"
  by (simp add: send_def runGeneration_def cleanup_def Let_def)

lemma send_ignored:
  "transition (machine s) ev = machine s \<Longrightarrow> send ev s = s"
  by (simp add: send_def Let_def)

lemma reachable_invs:
  "loop_inv (run es mounted)" "closure_inv (run es mounted)"
  by (simp_all add: loop_inv_run loop_inv_mounted closure_inv_run closure_inv_mounted)

lemma leaves_generating:
  assumes "status m = Generating" and "ev = CANCEL \<or> ev = GENERATION_COMPLETE \<or> ev = ERROR msg"
  shows "status (transition m ev) \<noteq> Generating" and "status (transition m ev) \<noteq> status m"
  using assms by auto

lemma send_keeps_producers:
  "status (transition (machine s) ev) \<noteq> Generating \<Longrightarrow> producerCalls (send ev s) = producerCalls s"
  by (simp add: send_producerCalls)

lemma send_start:
  assumes "viewRef s = Some v" and "status (machine s) \<noteq> Generating"
  shows "send (CONTINUE_WRITING t instr) s =
     s\<lparr>machine := \<lparr>status = Generating, request = Some \<lparr>baseText = t, instruction = instr\<rparr>,
                   errorMessage = None\<rparr>,
       isExpanded := True,
       viewRef := Some (v\<lparr>cursor := length (docText v)\<rparr>),
       closures := (closures s)[length (closures s) - 1 := False] @ [True],
       producerCalls := producerCalls s @ [(length (closures s), docText v, instr)]\<rparr>"
  using assms
  by (simp add: send_def runGeneration_def cleanup_def context_instruction_def Let_def)

lemma handleStartGeneration_expanded:
  "viewRef s = Some v \<Longrightarrow> isExpanded s \<Longrightarrow>
     handleStartGeneration s = send (CONTINUE_WRITING (docText v) (prompt_instruction s)) s"
  by (simp add: handleStartGeneration_def Let_def)

lemma handleStartGeneration_collapsed:
  "viewRef s = Some v \<Longrightarrow> \<not> isExpanded s \<Longrightarrow>
     handleStartGeneration s
       = send (CONTINUE_WRITING [] (prompt_instruction s)) ((clearEditor s)\<lparr>isExpanded := True\<rparr>)"
  by (simp add: handleStartGeneration_def Let_def)

lemma handleStartGeneration_accepted:
  assumes "viewRef s = Some v" and "status (machine s) \<noteq> Generating"
  shows "status (machine (handleStartGeneration s)) = Generating
       \<and> length (producerCalls (handleStartGeneration s)) = Suc (length (producerCalls s))"
proof (cases "isExpanded s")
  case True
  show ?thesis
    using send_start [OF assms, of "docText v" "prompt_instruction s"]
      handleStartGeneration_expanded [OF assms(1) True] by simp
next
  case False
  define s1 where "s1 = (clearEditor s)\<lparr>isExpanded := True\<rparr>"
  have v1: "viewRef s1 = Some (v\<lparr>docText := [], cursor := 0\<rparr>)"
    and m1: "status (machine s1) \<noteq> Generating"
    and p1: "producerCalls s1 = producerCalls s"
    using assms by (simp_all add: s1_def clearEditor_def)
  show ?thesis
    using send_start [OF v1 m1, of "[]" "prompt_instruction s"] p1
      handleStartGeneration_collapsed [OF assms(1) False] by (simp add: s1_def)
qed

subsection \<open>The two paths that send CANCEL\<close>

text \<open>The action button while generating: the machine is cancelled and later fragments
  are discarded, but the queue and the frame loop are left as they are, and the loop
  inserts everything that was queued.\<close>

lemma clickAction_cancel_keeps_queue:
  assumes "s = run es0 mounted" and "status (machine s) = Generating"
  shows "clickAction s = send CANCEL s
       \<and> status (machine (clickAction s)) = Cancelled
       \<and> textQueueRef (clickAction s) = textQueueRef s
       \<and> isProcessingQueue (clickAction s) = isProcessingQueue s
       \<and> frames (clickAction s) = frames s
       \<and> insertCalls (clickAction s) = insertCalls s
       \<and> (\<forall>i c. step (Fragment i c) (clickAction s) = clickAction s)
       \<and> concat (insertCalls (drain (clickAction s))) = concat (insertCalls s) @ textQueueRef s"
proof -
  have c: "clickAction s = send CANCEL s" using assms(2) by (simp add: clickAction_def)
  have ci: "closure_inv s" and li: "loop_inv s" using assms(1) reachable_invs by simp_all
  have st: "status (machine (send CANCEL s)) = Cancelled" using assms(2) by simp
  have ng: "status (transition (machine s) CANCEL) \<noteq> Generating"
    and ch: "status (transition (machine s) CANCEL) \<noteq> status (machine s)"
    using assms(2) by simp_all
  have disc: "step (Fragment i c) (send CANCEL s) = send CANCEL s" for i c
  proof (cases "has_producer (send CANCEL s) i")
    case True
    then have "i \<in> fst ` set (producerCalls s)"
      using send_keeps_producers [OF ng] by (simp add: has_producer_def)
    then have "i < length (closures s)" using ci by (auto simp: closure_inv_def)
    then have "stale (send CANCEL s) i" using ci ch by (simp add: send_stales)
    then show ?thesis using True by (simp add: stale_onChunk)
  next
    case False
    then show ?thesis by simp
  qed
  have "loop_inv (send CANCEL s)" using li by (rule loop_inv_send)
  then have "concat (insertCalls (drain (send CANCEL s)))
      = concat (insertCalls (send CANCEL s)) @ textQueueRef (send CANCEL s)"
    by (rule drain_insertCalls)
  then have dr: "concat (insertCalls (drain (send CANCEL s)))
      = concat (insertCalls s) @ textQueueRef s"
    by simp
  show ?thesis using c st disc dr by simp
qed

text \<open>New Chat while generating: the machine is cancelled, the queue is emptied, later
  fragments are discarded, and the frame loop stops without a further insertion.\<close>

lemma frame_empty_queue:
  "textQueueRef s = [] \<Longrightarrow>
     textQueueRef (frame s) = [] \<and> insertCalls (frame s) = insertCalls s"
  by (simp add: frame_def processQueue_def split: option.splits)

lemma drain_empty_queue:
  "textQueueRef s = [] \<Longrightarrow>
     textQueueRef (drain s) = [] \<and> insertCalls (drain s) = insertCalls s"
proof (induction s rule: drain.induct)
  case (1 s)
  show ?case
  proof (cases "frames s = 0")
    case True
    then show ?thesis using "1.prems" by (simp add: drain.simps [of s])
  next
    case False
    then have "drain s = drain (frame s)" by (simp add: drain.simps [of s])
    then show ?thesis
      using "1.IH" [OF False] frame_empty_queue [OF "1.prems"] by simp
  qed
qed

lemma handleNewChat_resets_queue:
  assumes "s = run es0 mounted" and "status (machine s) = Generating"
  shows "status (machine (handleNewChat s)) = Cancelled
       \<and> textQueueRef (handleNewChat s) = []
       \<and> insertCalls (handleNewChat s) = insertCalls s
       \<and> (\<forall>i c. step (Fragment i c) (handleNewChat s) = handleNewChat s)
       \<and> textQueueRef (drain (handleNewChat s)) = []
       \<and> insertCalls (drain (handleNewChat s)) = insertCalls s"
proof -
  define t where "t = handleNewChat s"
  have t: "t = (clearEditor (send CANCEL s))\<lparr>promptText := [], isExpanded := False,
      textQueueRef := []\<rparr>"
    using assms(2) by (simp add: t_def handleNewChat_def Let_def)
  have ci: "closure_inv s" using assms(1) reachable_invs by simp
  have ng: "status (transition (machine s) CANCEL) \<noteq> Generating"
    and ch: "status (transition (machine s) CANCEL) \<noteq> status (machine s)"
    using assms(2) by simp_all
  have st: "status (machine t) = Cancelled" using assms(2) by (simp add: t)
  have q: "textQueueRef t = []" by (simp add: t)
  have ic: "insertCalls t = insertCalls s"
    by (simp add: t clearEditor_def split: option.splits)
  have cl: "closures t = closures (send CANCEL s)"
    and pc: "producerCalls t = producerCalls s"
    using send_keeps_producers [OF ng] by (simp_all add: t)
  have disc: "step (Fragment i c) t = t" for i c
  proof (cases "has_producer t i")
    case True
    then have "i \<in> fst ` set (producerCalls s)" using pc by (simp add: has_producer_def)
    then have "i < length (closures s)" using ci by (auto simp: closure_inv_def)
    then have "stale (send CANCEL s) i" using ci ch by (simp add: send_stales)
    then have "stale t i" using cl by (simp add: stale_def)
    then show ?thesis using True by (simp add: stale_onChunk)
  next
    case False
    then show ?thesis by simp
  qed
  show ?thesis
    using st q ic disc drain_empty_queue [OF q] by (simp add: t_def)
qed

subsection \<open>Claims\<close>

text \<open>C1. Fragments forwarded by the active effect run \<open>i\<close>, interleaved in any way with
  frames and followed by the frame loop running until it stops, are inserted completely
  and in order: the concatenation of the chunks given to \<^verbatim>\<open>insertText\<close> grows by
  what was queued before and by the concatenation of the fragments, in the order of
  delivery. From an empty queue and no insertion yet it is the concatenation of the
  fragments.\<close>

theorem render_queue_fifo:
  fixes s :: "'u editor"
  assumes "s = run es0 mounted"
    and "is_active s i" and "has_producer s i"
    and "\<forall>e \<in> set es. e = Frame \<or> (\<exists>c. e = Fragment i c)"
  shows "concat (insertCalls (drain (run es s)))
           = concat (insertCalls s) @ textQueueRef s @ concat (map fragment_text es)
         \<and> (insertCalls s = [] \<and> textQueueRef s = [] \<longrightarrow>
              concat (insertCalls (drain (run es s))) = concat (map fragment_text es))"
proof -
  have "loop_inv s" using assms(1) loop_inv_run [OF loop_inv_mounted] by simp
  then have "loop_inv (run es s)" by (rule loop_inv_run)
  then have "concat (insertCalls (drain (run es s))) = emitted (run es s)"
    using drain_insertCalls by (simp add: emitted_def)
  also have "\<dots> = emitted s @ concat (map fragment_text es)"
    using run_queue_events [OF assms(4,2,3)] .
  finally show ?thesis by (simp add: emitted_def)
qed

theorem render_queue_fifo_witness:
  "is_active (run [ClickAction] (mounted :: char editor)) 1
   \<and> has_producer (run [ClickAction] (mounted :: char editor)) 1
   \<and> concat (insertCalls (drain (run [Fragment 1 ''Hello'', Frame, Fragment 1 '' world'']
          (run [ClickAction] (mounted :: char editor))))) = ''Hello world''"
proof -
  have a: "is_active (run [ClickAction] (mounted :: char editor)) 1"
    by code_simp
  have p: "has_producer (run [ClickAction] (mounted :: char editor)) 1"
    by code_simp
  have e: "\<forall>e \<in> set [Fragment 1 ''Hello'', Frame, Fragment 1 '' world''].
             e = Frame \<or> (\<exists>c. e = Fragment 1 c)"
    by simp
  have q: "insertCalls (run [ClickAction] (mounted :: char editor)) = []
      \<and> textQueueRef (run [ClickAction] (mounted :: char editor)) = []"
    by code_simp
  have t: "concat (map fragment_text [Fragment 1 ''Hello'', Frame, Fragment 1 '' world''])
      = ''Hello world''"
    by simp
  show ?thesis
    using render_queue_fifo [OF refl a p e] a p q t by metis
qed

text \<open>C2. The action button's CANCEL while the machine is generating does not reset the
  render queue. With \<^verbatim>\<open>hello\<close> delivered and two of its code units inserted, the CANCEL
  leaves three code units queued, and the next frame inserts two of them. New Chat in
  the same state sends the same CANCEL and empties the queue, and the next frame inserts
  nothing.\<close>

theorem cancel_button_leaves_buffer:
  "status (machine (run [ClickAction, Fragment 1 ''hello''] (mounted :: char editor))) = Generating
   \<and> status (machine (run [ClickAction, Fragment 1 ''hello'', ClickAction]
        (mounted :: char editor))) = Cancelled
   \<and> textQueueRef (run [ClickAction, Fragment 1 ''hello'', ClickAction]
        (mounted :: char editor)) = ''llo''
   \<and> length (textQueueRef (run [ClickAction, Fragment 1 ''hello'', ClickAction]
        (mounted :: char editor))) \<noteq> 0
   \<and> insertCalls (run [ClickAction, Fragment 1 ''hello'', ClickAction] (mounted :: char editor))
       = [''he'']
   \<and> insertCalls (run [ClickAction, Fragment 1 ''hello'', ClickAction, Frame]
        (mounted :: char editor)) = [''he'', ''ll'']
   \<and> insertCalls (run [ClickAction, Fragment 1 ''hello'', ClickAction, Frame]
        (mounted :: char editor))
       \<noteq> insertCalls (run [ClickAction, Fragment 1 ''hello'', ClickAction]
        (mounted :: char editor))
   \<and> status (machine (run [ClickAction, Fragment 1 ''hello'', NewChat]
        (mounted :: char editor))) = Cancelled
   \<and> textQueueRef (run [ClickAction, Fragment 1 ''hello'', NewChat]
        (mounted :: char editor)) = []
   \<and> insertCalls (run [ClickAction, Fragment 1 ''hello'', NewChat, Frame]
        (mounted :: char editor)) = [''he'']"
  by code_simp

text \<open>C3. A drain step with \<open>L \<ge> 1\<close> code units queued takes the chunk size from the
  staircase (50 above 200, 25 above 100, 10 above 50, 4 above 10, else 2), removes
  \<open>min (chunkSize L) L\<close> code units from the front of the queue and makes one call of
  \<^verbatim>\<open>insertText\<close>, with those code units; from 250 queued the first step leaves 200 and
  the second 175.\<close>

theorem drain_step_staircase:
  assumes view: "viewRef s = Some v" and L: "L = length (textQueueRef s)" and pos: "1 \<le> L"
  shows "(200 < L \<longrightarrow> chunkSize L = 50) \<and> (100 < L \<and> L \<le> 200 \<longrightarrow> chunkSize L = 25)
       \<and> (50 < L \<and> L \<le> 100 \<longrightarrow> chunkSize L = 10) \<and> (10 < L \<and> L \<le> 50 \<longrightarrow> chunkSize L = 4)
       \<and> (1 \<le> L \<and> L \<le> 10 \<longrightarrow> chunkSize L = 2)
       \<and> textQueueRef (processQueue s) = drop (min (chunkSize L) L) (textQueueRef s)
       \<and> length (textQueueRef (processQueue s)) + min (chunkSize L) L = L
       \<and> insertCalls (processQueue s)
            = insertCalls s @ [take (min (chunkSize L) L) (textQueueRef s)]
       \<and> (L = 250 \<longrightarrow> length (textQueueRef (processQueue s)) = 200
             \<and> length (textQueueRef (processQueue (processQueue s))) = 175)"
proof -
  have ne: "textQueueRef s \<noteq> []" using L pos by auto
  note step1 = processQueue_nonempty [OF view ne]
  have q: "textQueueRef (processQueue s) = drop (min (chunkSize L) L) (textQueueRef s)"
    using step1 by (simp add: L min_def)
  have len: "length (textQueueRef (processQueue s)) + min (chunkSize L) L = L"
    using q by (simp add: L)
  have ins: "insertCalls (processQueue s)
      = insertCalls s @ [take (min (chunkSize L) L) (textQueueRef s)]"
    using step1 by (simp add: L min_def)
  have scen: "L = 250 \<longrightarrow> length (textQueueRef (processQueue s)) = 200
      \<and> length (textQueueRef (processQueue (processQueue s))) = 175"
  proof
    assume L250: "L = 250"
    have 1: "length (textQueueRef (processQueue s)) = 200"
      using len L250 by (simp add: chunkSize_def)
    have v1: "viewRef (processQueue s)
        = Some (insertText (take (chunkSize (length (textQueueRef s))) (textQueueRef s)) v)"
      using step1 by simp
    have ne1: "textQueueRef (processQueue s) \<noteq> []" using 1 by auto
    have "length (textQueueRef (processQueue (processQueue s))) = 175"
      using processQueue_nonempty [OF v1 ne1] 1 by (simp add: chunkSize_def)
    then show "length (textQueueRef (processQueue s)) = 200
      \<and> length (textQueueRef (processQueue (processQueue s))) = 175"
      using 1 by simp
  qed
  show ?thesis using chunkSize_table [of L] q len ins scen by blast
qed

theorem drain_step_staircase_witness:
  "length (textQueueRef (processQueue (mounted\<lparr>textQueueRef := replicate 250 CHR ''a''\<rparr>))) = 200
   \<and> length (textQueueRef (processQueue (processQueue
        (mounted\<lparr>textQueueRef := replicate 250 CHR ''a''\<rparr>)))) = 175
   \<and> chunkSize 250 = 50"
proof -
  have v: "viewRef (mounted\<lparr>textQueueRef := replicate 250 CHR ''a''\<rparr>)
      = Some \<lparr>docText = [], cursor = 0\<rparr>"
    by (simp add: mounted_def)
  have L: "(250::nat) = length (textQueueRef (mounted\<lparr>textQueueRef := replicate 250 CHR ''a''\<rparr>))"
    by simp
  have pos: "(1::nat) \<le> 250" by simp
  show ?thesis
    using drain_step_staircase [OF v L pos] by simp
qed

text \<open>C4. Once the machine has left \<open>generating\<close> by CANCEL, completion or failure, a
  fragment delivered through the callback of any effect run that existed before is
  discarded, whatever happened in between: the callback finds its \<^verbatim>\<open>active\<close> false
  and returns, and the state is unchanged.\<close>

theorem stale_fragment_discarded:
  assumes "s = run es0 mounted"
    and "status (machine s) = Generating"
    and "ev = CANCEL \<or> ev = GENERATION_COMPLETE \<or> ev = ERROR msg"
    and "i < length (closures s)"
  shows "\<not> is_active (run es (send ev s)) i
       \<and> onChunk i c (run es (send ev s)) = run es (send ev s)
       \<and> step (Fragment i c) (run es (send ev s)) = run es (send ev s)"
proof -
  have "closure_inv s" using assms(1) reachable_invs(2) by simp
  then have "stale (send ev s) i"
    using leaves_generating(2) [OF assms(2,3)] assms(4) by (rule send_stales)
  then have st: "stale (run es (send ev s)) i" by (rule stale_run)
  then have "onChunk i c (run es (send ev s)) = run es (send ev s)" by (rule stale_onChunk)
  moreover have "\<not> is_active (run es (send ev s)) i"
    using st by (simp add: stale_def is_active_def)
  ultimately show ?thesis by simp
qed

theorem stale_fragment_discarded_witness:
  "status (machine (run [ClickAction, Fragment 1 ''hello''] (mounted :: char editor))) = Generating
   \<and> is_active (run [ClickAction, Fragment 1 ''hello''] (mounted :: char editor)) 1
   \<and> step (Fragment 1 '' world'')
        (run [Frame] (send CANCEL (run [ClickAction, Fragment 1 ''hello''] (mounted :: char editor))))
       = run [Frame] (send CANCEL (run [ClickAction, Fragment 1 ''hello''] mounted))"
proof -
  have g: "status (machine (run [ClickAction, Fragment 1 ''hello''] (mounted :: char editor)))
      = Generating"
    by code_simp
  have a: "is_active (run [ClickAction, Fragment 1 ''hello''] (mounted :: char editor)) 1"
    by code_simp
  have l: "1 < length (closures (run [ClickAction, Fragment 1 ''hello''] (mounted :: char editor)))"
    by code_simp
  have e: "(CANCEL :: char machine_event) = CANCEL \<or> (CANCEL :: char machine_event) = GENERATION_COMPLETE
      \<or> (CANCEL :: char machine_event) = ERROR []"
    by simp
  show ?thesis
    using stale_fragment_discarded [OF refl g e l, of "[Frame]" "'' world''"] g a by blast
qed

text \<open>C5. In every reachable state a frame removes a prefix of the queue, which it inserts,
  so never more than is queued; the frame loop stops after at most as many frames as
  there are code units queued plus one; and when it has stopped the queue is empty, the
  processing flag is false and no frame is scheduled.\<close>

theorem drain_terminates:
  assumes "s = run es mounted"
  shows "(\<exists>chunk. textQueueRef s = chunk @ textQueueRef (frame s)
            \<and> concat (insertCalls (frame s)) = concat (insertCalls s) @ chunk)
       \<and> length (textQueueRef (frame s)) \<le> length (textQueueRef s)
       \<and> (\<exists>n \<le> length (textQueueRef s) + 1. drain s = (frame ^^ n) s)
       \<and> length (textQueueRef (drain s)) = 0
       \<and> \<not> isProcessingQueue (drain s)
       \<and> frames (drain s) = 0"
proof -
  have inv: "loop_inv s" using assms loop_inv_run [OF loop_inv_mounted] by simp
  have "frames s \<le> 1" using inv by (simp add: loop_inv_def)
  then have n: "\<exists>n \<le> length (textQueueRef s) + 1. drain s = (frame ^^ n) s"
    using drain_funpow [of s] by (meson add_left_mono le_trans)
  obtain chunk where c: "textQueueRef s = chunk @ textQueueRef (frame s)"
    and i: "concat (insertCalls (frame s)) = concat (insertCalls s) @ chunk"
    using frame_suffix [of s] by blast
  have "length (textQueueRef s) = length chunk + length (textQueueRef (frame s))"
    using c by (metis length_append)
  then have le: "length (textQueueRef (frame s)) \<le> length (textQueueRef s)" by simp
  show ?thesis using c i le n drain_quiescent [OF inv] by auto
qed

theorem drain_terminates_witness:
  "textQueueRef (run [ClickAction, Fragment 1 ''hello''] (mounted :: char editor)) = ''llo''
   \<and> textQueueRef (drain (run [ClickAction, Fragment 1 ''hello''] (mounted :: char editor))) = []
   \<and> \<not> isProcessingQueue (drain (run [ClickAction, Fragment 1 ''hello''] (mounted :: char editor)))"
proof -
  have q: "textQueueRef (run [ClickAction, Fragment 1 ''hello''] (mounted :: char editor)) = ''llo''"
    by code_simp
  show ?thesis
    using drain_terminates [OF refl, of "[ClickAction, Fragment 1 ''hello'']"] q by simp
qed

text \<open>C6. In every reachable state at most one frame callback is scheduled, and one is
  scheduled exactly when the processing flag is set. \<^verbatim>\<open>triggerProcessing\<close> with the
  flag set does nothing, a fragment forwarded then is only appended to the queue, and
  neither a fragment nor \<^verbatim>\<open>triggerProcessing\<close> leads to a second scheduled frame.\<close>

theorem single_drain_loop:
  assumes "s = run es mounted"
  shows "frames s \<le> 1
       \<and> (frames s = 1 \<longleftrightarrow> isProcessingQueue s)
       \<and> (isProcessingQueue s \<longrightarrow> triggerProcessing s = s)
       \<and> (isProcessingQueue s \<and> is_active s i \<longrightarrow>
            onChunk i c s = s\<lparr>textQueueRef := textQueueRef s @ c\<rparr>)
       \<and> frames (onChunk i c s) \<le> 1
       \<and> frames (triggerProcessing s) \<le> 1"
proof -
  have inv: "loop_inv s" using assms loop_inv_run [OF loop_inv_mounted] by simp
  have 1: "frames s \<le> 1" and 2: "frames s = 1 \<longleftrightarrow> isProcessingQueue s"
    using inv by (simp_all add: loop_inv_def)
  have 3: "isProcessingQueue s \<longrightarrow> triggerProcessing s = s"
    by (simp add: triggerProcessing_def)
  have 4: "isProcessingQueue s \<and> is_active s i \<longrightarrow>
      onChunk i c s = s\<lparr>textQueueRef := textQueueRef s @ c\<rparr>"
    using inv by (auto simp: onChunk_def triggerProcessing_def loop_inv_def Let_def)
  have 5: "frames (onChunk i c s) \<le> 1"
    using loop_inv_onChunk [OF inv, of i c] by (simp add: loop_inv_def)
  have "loop_inv (triggerProcessing s)"
    using inv
    by (auto simp: loop_inv_def triggerProcessing_def processQueue_def Let_def
        split: option.splits)
  then have 6: "frames (triggerProcessing s) \<le> 1" by (simp add: loop_inv_def)
  show ?thesis using 1 2 3 4 5 6 by blast
qed

theorem single_drain_loop_witness:
  "isProcessingQueue (run [ClickAction, Fragment 1 ''hello''] (mounted :: char editor))
   \<and> is_active (run [ClickAction, Fragment 1 ''hello''] (mounted :: char editor)) 1
   \<and> frames (run [ClickAction, Fragment 1 ''hello''] (mounted :: char editor)) = 1
   \<and> triggerProcessing (run [ClickAction, Fragment 1 ''hello''] (mounted :: char editor))
       = run [ClickAction, Fragment 1 ''hello''] mounted
   \<and> frames (onChunk 1 '' world''
        (run [ClickAction, Fragment 1 ''hello''] (mounted :: char editor))) \<le> 1"
proof -
  have p: "isProcessingQueue (run [ClickAction, Fragment 1 ''hello''] (mounted :: char editor))"
    by code_simp
  have a: "is_active (run [ClickAction, Fragment 1 ''hello''] (mounted :: char editor)) 1"
    by code_simp
  show ?thesis
    using single_drain_loop [OF refl, of "[ClickAction, Fragment 1 ''hello'']" 1 "'' world''"] p a
    by blast
qed

text \<open>C7. While the machine is generating, a START is ignored: sending
  \<^verbatim>\<open>CONTINUE_WRITING\<close> changes nothing, and \<^verbatim>\<open>handleStartGeneration\<close> leaves the
  machine generating with its request, runs the generation effect no further time and
  calls \<^verbatim>\<open>streamContinuation\<close> no further time; with the card expanded, as it is while
  generating, the handler changes nothing at all. After a CANCEL the handler starts a
  generation again.\<close>

theorem start_while_generating:
  assumes "status (machine s) = Generating"
  shows "send (CONTINUE_WRITING t instr) s = s
       \<and> status (machine (handleStartGeneration s)) = Generating
       \<and> machine (handleStartGeneration s) = machine s
       \<and> producerCalls (handleStartGeneration s) = producerCalls s
       \<and> closures (handleStartGeneration s) = closures s
       \<and> (isExpanded s \<longrightarrow> handleStartGeneration s = s)
       \<and> (viewRef s \<noteq> None \<longrightarrow>
            status (machine (handleStartGeneration (clickAction s))) = Generating
            \<and> length (producerCalls (handleStartGeneration (clickAction s)))
                = Suc (length (producerCalls s)))"
proof -
  have ign: "\<And>t instr s'. machine s' = machine s \<Longrightarrow> send (CONTINUE_WRITING t instr) s' = s'"
    using assms by (simp add: send_ignored)
  have 1: "send (CONTINUE_WRITING t instr) s = s" by (simp add: ign)
  have m: "machine ((clearEditor s)\<lparr>isExpanded := True\<rparr>) = machine s" by simp
  have h: "handleStartGeneration s = s
      \<or> handleStartGeneration s = (clearEditor s)\<lparr>isExpanded := True\<rparr>"
    using ign [OF m] ign [OF refl]
    by (auto simp: handleStartGeneration_def Let_def split: option.splits)
  have 2: "machine (handleStartGeneration s) = machine s"
    and 3: "producerCalls (handleStartGeneration s) = producerCalls s"
    and 4: "closures (handleStartGeneration s) = closures s"
    using h by auto
  have 5: "isExpanded s \<longrightarrow> handleStartGeneration s = s"
    using ign [OF refl] by (auto simp: handleStartGeneration_def Let_def split: option.splits)
  have 6: "viewRef s \<noteq> None \<longrightarrow>
      status (machine (handleStartGeneration (clickAction s))) = Generating
      \<and> length (producerCalls (handleStartGeneration (clickAction s)))
          = Suc (length (producerCalls s))"
  proof
    assume "viewRef s \<noteq> None"
    then obtain v where v: "viewRef s = Some v" by auto
    have c: "clickAction s = send CANCEL s" using assms by (simp add: clickAction_def)
    have ng: "status (transition (machine s) CANCEL) \<noteq> Generating" using assms by simp
    have v': "viewRef (send CANCEL s) = Some v" using send_view_keep [OF ng] v by simp
    have m': "status (machine (send CANCEL s)) \<noteq> Generating" using assms by simp
    have p': "producerCalls (send CANCEL s) = producerCalls s" using ng by (rule send_keeps_producers)
    show "status (machine (handleStartGeneration (clickAction s))) = Generating
      \<and> length (producerCalls (handleStartGeneration (clickAction s)))
          = Suc (length (producerCalls s))"
      using handleStartGeneration_accepted [OF v' m'] c p' by simp
  qed
  show ?thesis using 1 2 3 4 5 6 assms by simp
qed

theorem start_while_generating_witness:
  "status (machine (run [ClickAction] (mounted :: char editor))) = Generating
   \<and> isExpanded (run [ClickAction] (mounted :: char editor))
   \<and> viewRef (run [ClickAction] (mounted :: char editor)) \<noteq> None
   \<and> run [ClickAction, PressEnter] (mounted :: char editor) = run [ClickAction] mounted
   \<and> producerCalls (run [ClickAction, PressEnter] (mounted :: char editor)) = [(1, [], None)]
   \<and> status (machine (handleStartGeneration (clickAction
        (run [ClickAction] (mounted :: char editor))))) = Generating"
proof -
  have g: "status (machine (run [ClickAction] (mounted :: char editor))) = Generating"
    by code_simp
  have x: "isExpanded (run [ClickAction] (mounted :: char editor))"
    by code_simp
  have v: "viewRef (run [ClickAction] (mounted :: char editor)) \<noteq> None"
    by code_simp
  have p: "producerCalls (run [ClickAction] (mounted :: char editor)) = [(1, [], None)]"
    by code_simp
  have r: "run [ClickAction, PressEnter] (mounted :: char editor)
      = handleStartGeneration (run [ClickAction] mounted)"
    by simp
  note t = start_while_generating [OF g]
  have "handleStartGeneration (run [ClickAction] (mounted :: char editor)) = run [ClickAction] mounted"
    using t x by blast
  moreover have "status (machine (handleStartGeneration (clickAction
        (run [ClickAction] (mounted :: char editor))))) = Generating"
    using t v by blast
  ultimately show ?thesis using g x v p r by metis
qed

text \<open>C8. When the promise of the active producer rejects while the machine is generating,
  the status becomes \<open>error\<close>; the error message is the producer's message when it has a
  non-empty one, and \<^verbatim>\<open>Failed to generate text\<close> when the message is undefined or
  empty.\<close>

theorem producer_failure_message:
  assumes "is_active s i" and "status (machine s) = Generating"
  shows "(msg \<noteq> [] \<longrightarrow> status (machine (reject i (Some msg) s)) = Error
            \<and> errorMessage (machine (reject i (Some msg) s)) = Some msg)
       \<and> status (machine (reject i None s)) = Error
       \<and> errorMessage (machine (reject i None s)) = Some ''Failed to generate text''
       \<and> errorMessage (machine (reject i (Some []) s)) = Some ''Failed to generate text''"
  using assms by (simp add: reject_def error_message_def)

theorem producer_failure_message_witness:
  "is_active (run [ClickAction] (mounted :: char editor)) 1
   \<and> status (machine (run [ClickAction] (mounted :: char editor))) = Generating
   \<and> status (machine (reject 1 (Some ''rate limited'') (run [ClickAction] (mounted :: char editor))))
       = Error
   \<and> errorMessage (machine (reject 1 (Some ''rate limited'')
        (run [ClickAction] (mounted :: char editor)))) = Some ''rate limited''"
proof -
  have a: "is_active (run [ClickAction] (mounted :: char editor)) 1"
    by code_simp
  have g: "status (machine (run [ClickAction] (mounted :: char editor))) = Generating"
    by code_simp
  have n: "''rate limited'' \<noteq> []" by simp
  show ?thesis
    using producer_failure_message [OF a g, of "''rate limited''"] a g n by blast
qed

text \<open>C9. The failure of the active producer moves the machine to \<open>error\<close> and touches
  neither the document nor the insertions made so far, nor the queue and its frame loop:
  what was inserted stays.\<close>

theorem failure_keeps_document:
  assumes "is_active s i" and "status (machine s) = Generating"
  shows "status (machine (reject i m s)) = Error
       \<and> viewRef (reject i m s) = viewRef s
       \<and> insertCalls (reject i m s) = insertCalls s
       \<and> textQueueRef (reject i m s) = textQueueRef s
       \<and> frames (reject i m s) = frames s
       \<and> isProcessingQueue (reject i m s) = isProcessingQueue s"
  using assms by (simp add: reject_def send_view_keep)

theorem failure_keeps_document_witness:
  "is_active (run [ClickAction, Fragment 1 ''hello'', Frame] (mounted :: char editor)) 1
   \<and> status (machine (run [ClickAction, Fragment 1 ''hello'', Frame] (mounted :: char editor)))
       = Generating
   \<and> viewRef (run [ClickAction, Fragment 1 ''hello'', Frame] (mounted :: char editor))
       = Some \<lparr>docText = ''hell'', cursor = 4\<rparr>
   \<and> viewRef (reject 1 (Some ''rate limited'')
        (run [ClickAction, Fragment 1 ''hello'', Frame] (mounted :: char editor)))
       = Some \<lparr>docText = ''hell'', cursor = 4\<rparr>
   \<and> insertCalls (reject 1 (Some ''rate limited'')
        (run [ClickAction, Fragment 1 ''hello'', Frame] (mounted :: char editor)))
       = [''he'', ''ll'']"
proof -
  have a: "is_active (run [ClickAction, Fragment 1 ''hello'', Frame] (mounted :: char editor)) 1"
    by code_simp
  have g: "status (machine (run [ClickAction, Fragment 1 ''hello'', Frame] (mounted :: char editor)))
      = Generating"
    by code_simp
  have v: "viewRef (run [ClickAction, Fragment 1 ''hello'', Frame] (mounted :: char editor))
      = Some \<lparr>docText = ''hell'', cursor = 4\<rparr>"
    by code_simp
  have c: "insertCalls (run [ClickAction, Fragment 1 ''hello'', Frame] (mounted :: char editor))
      = [''he'', ''ll'']"
    by code_simp
  show ?thesis
    using failure_keeps_document [OF a g, of "Some ''rate limited''"] a g v c by metis
qed

text \<open>C10. \<^verbatim>\<open>handleStartGeneration\<close> with a view and a machine that is not generating.
  With the card collapsed the document and the queue are emptied, and the empty text is
  both the request's base text and the base text given to \<^verbatim>\<open>streamContinuation\<close>,
  whatever the document held. With the card expanded the document and the queue keep
  their text, and the document's text is the base text in both places.\<close>

theorem start_generation_base_text:
  assumes "viewRef s = Some v" and "status (machine s) \<noteq> Generating"
  shows "(\<not> isExpanded s \<longrightarrow>
            viewRef (handleStartGeneration s) = Some \<lparr>docText = [], cursor = 0\<rparr>
          \<and> textQueueRef (handleStartGeneration s) = []
          \<and> request (machine (handleStartGeneration s))
              = Some \<lparr>baseText = [], instruction = prompt_instruction s\<rparr>
          \<and> producerCalls (handleStartGeneration s)
              = producerCalls s @ [(length (closures s), [], prompt_instruction s)])
       \<and> (isExpanded s \<longrightarrow>
            viewRef (handleStartGeneration s) = Some (v\<lparr>cursor := length (docText v)\<rparr>)
          \<and> textQueueRef (handleStartGeneration s) = textQueueRef s
          \<and> request (machine (handleStartGeneration s))
              = Some \<lparr>baseText = docText v, instruction = prompt_instruction s\<rparr>
          \<and> producerCalls (handleStartGeneration s)
              = producerCalls s @ [(length (closures s), docText v, prompt_instruction s)])"
proof (cases "isExpanded s")
  case True
  have "handleStartGeneration s = send (CONTINUE_WRITING (docText v) (prompt_instruction s)) s"
    using True assms(1) by (simp add: handleStartGeneration_def prompt_instruction_def Let_def)
  then show ?thesis
    using True send_start [OF assms, of "docText v" "prompt_instruction s"] by simp
next
  case False
  define s1 where "s1 = (clearEditor s)\<lparr>isExpanded := True\<rparr>"
  have v1: "viewRef s1 = Some (v\<lparr>docText := [], cursor := 0\<rparr>)"
    and m1: "status (machine s1) \<noteq> Generating"
    and f1: "closures s1 = closures s" "producerCalls s1 = producerCalls s" "textQueueRef s1 = []"
    using assms by (simp_all add: s1_def clearEditor_def)
  have "handleStartGeneration s = send (CONTINUE_WRITING [] (prompt_instruction s)) s1"
    using False assms(1)
    by (simp add: handleStartGeneration_def prompt_instruction_def s1_def Let_def)
  then show ?thesis
    using False send_start [OF v1 m1, of "[]" "prompt_instruction s"] f1 by simp
qed

theorem start_generation_base_text_witness:
  "\<not> isExpanded (mounted\<lparr>viewRef := Some \<lparr>docText = ''old text'', cursor = 3\<rparr>,
        textQueueRef := ''xy''\<rparr>)
   \<and> viewRef (handleStartGeneration (mounted\<lparr>viewRef := Some \<lparr>docText = ''old text'', cursor = 3\<rparr>,
        textQueueRef := ''xy''\<rparr>)) = Some \<lparr>docText = [], cursor = 0\<rparr>
   \<and> producerCalls (handleStartGeneration
        (mounted\<lparr>viewRef := Some \<lparr>docText = ''old text'', cursor = 3\<rparr>, textQueueRef := ''xy''\<rparr>))
       = [(1, [], None)]
   \<and> isExpanded (run [ClickAction, Fragment 1 ''hello'', Frame, Frame, Resolve 1]
        (mounted :: char editor))
   \<and> producerCalls (handleStartGeneration
        (run [ClickAction, Fragment 1 ''hello'', Frame, Frame, Resolve 1] (mounted :: char editor)))
       = [(1, [], None), (3, ''hello'', None)]"
proof -
  let ?a = "mounted\<lparr>viewRef := Some \<lparr>docText = ''old text'', cursor = 3\<rparr>, textQueueRef := ''xy''\<rparr>"
  let ?b = "run [ClickAction, Fragment 1 ''hello'', Frame, Frame, Resolve 1] (mounted :: char editor)"
  have va: "viewRef ?a = Some \<lparr>docText = ''old text'', cursor = 3\<rparr>"
    and ga: "status (machine ?a) \<noteq> Generating"
    and xa: "\<not> isExpanded ?a"
    and pa: "producerCalls ?a = []" "length (closures ?a) = 1" "prompt_instruction ?a = None"
    by (simp_all add: mounted_def prompt_instruction_def)
  have vb: "viewRef ?b = Some \<lparr>docText = ''hello'', cursor = 5\<rparr>" by code_simp
  have gb: "status (machine ?b) \<noteq> Generating" by code_simp
  have xb: "isExpanded ?b" by code_simp
  have pb: "producerCalls ?b = [(1, [], None)] \<and> length (closures ?b) = 3
      \<and> prompt_instruction ?b = None"
    by code_simp
  have 1: "viewRef (handleStartGeneration ?a) = Some \<lparr>docText = [], cursor = 0\<rparr>
      \<and> producerCalls (handleStartGeneration ?a) = [(1, [], None)]"
    using start_generation_base_text [OF va ga] xa pa by simp
  have 2: "producerCalls (handleStartGeneration ?b) = [(1, [], None), (3, ''hello'', None)]"
    using start_generation_base_text [OF vb gb] xb pb by simp
  show ?thesis using 1 2 xa xb by blast
qed

end
